theory Spec2Isabelle
  imports Complex_Main
begin

section \<open>Shared Python notions\<close>

text \<open>
  Exceptions of the Python runtime that the two notebooks can raise: an index outside a
  sequence and a key missing from a dict.
\<close>

datatype error = IndexError | KeyError

text \<open>
  Subscription \<open>xs[i]\<close> of a Python sequence (list or NumPy axis): an index from
  \<open>-len\<close> up to \<open>-1\<close> counts from the end, anything outside \<open>-len .. len-1\<close> raises.
\<close>

definition getitem :: "'a list \<Rightarrow> int \<Rightarrow> error + 'a" where
  "getitem xs i =
     (if 0 \<le> i \<and> i < int (length xs) then Inr (xs ! nat i)
      else if - int (length xs) \<le> i \<and> i < 0 then Inr (xs ! nat (int (length xs) + i))
      else Inl IndexError)"

section \<open>Blackjack (ch05/blackjack-prediction.ipynb)\<close>

text \<open>
  The functions of the first half of the notebook carry Numba's \<open>jit\<close> decorator; they are
  modelled by what their Python text computes, on unbounded integers.

  The random source. \<open>draw_card\<close> returns \<open>np.random.multinomial(1, deck_probs).argmax()\<close>,
  the index of the category that was sampled, so a natural number below
  \<open>len(deck_probs)\<close>. A run of the program is modelled against a fixed infinite sequence
  \<open>d\<close> of such outcomes; the state carries the number of calls made so far, and the
  \<open>k\<close>-th call returns \<open>d k\<close>.
\<close>

type_synonym draws = "nat \<Rightarrow> nat"

definition draw_card :: "draws \<Rightarrow> nat \<Rightarrow> int \<times> nat" where
  "draw_card d k = (int (d k), Suc k)"

text \<open>
  Modelled from the spec: \<open>deck_probs\<close> is read by \<open>draw_card\<close> but no cell of the notebook
  assigns it; the only definition is the commented-out one of the second half
  (\<open>n_vals = ones(10)\<close> with the last entry set to 4, divided by its sum), a "fixed discrete
  distribution" over ten categories.
\<close>

definition deck_probs :: "real list" where
  "deck_probs = map (\<lambda>n. n / 13) (replicate 9 1 @ [4])"

text \<open>
  The outcomes a multinomial sample of size one can take under a probability vector are the
  categories of positive probability; a sequence of draws is possible when every element is.
\<close>

definition can_produce :: "real list \<Rightarrow> draws \<Rightarrow> bool" where
  "can_produce probs d \<longleftrightarrow> (\<forall>i. d i < length probs \<and> 0 < probs ! d i)"

text \<open>\<open>dealer_strategy\<close>: the dealer draws while below 17. The loop may run forever.\<close>

partial_function (option) dealer_strategy :: "draws \<Rightarrow> nat \<Rightarrow> int \<Rightarrow> (int \<times> nat) option" where
  "dealer_strategy d k value_cards =
     (if value_cards < 17
      then (case draw_card d k of (c, k') \<Rightarrow> dealer_strategy d k' (value_cards + c))
      else Some (value_cards, k))"

definition update_player_card :: "int \<Rightarrow> int \<Rightarrow> int \<times> bool" where
  "update_player_card current_value new_card =
     (let has_usable_ace = (new_card = 1 \<and> current_value \<le> 10);
          new_card = (if has_usable_ace then 11 else new_card)
      in (current_value + new_card, has_usable_ace))"

text \<open>The local variables of \<open>blackjack\<close> that the hit loop reads and writes.\<close>

record player =
  player_value_cards :: int
  has_usable_ace :: bool
  hist_reward :: "int list"
  hist_state :: "(int \<times> bool) list"
  hist_action :: "int list"
  ndraws :: nat

text \<open>The loop condition \<open>policy[player_value_cards - 12][1] != 1.0\<close>.\<close>

definition policy_hits :: "real list list \<Rightarrow> int \<Rightarrow> error + bool" where
  "policy_hits policy v =
     (case getitem policy (v - 12) of
        Inl e \<Rightarrow> Inl e
      | Inr row \<Rightarrow> (case getitem row 1 of Inl e \<Rightarrow> Inl e | Inr x \<Rightarrow> Inr (x \<noteq> 1)))"

text \<open>One pass through the body of the hit loop, up to the test for a bust.\<close>

definition hit_body :: "draws \<Rightarrow> player \<Rightarrow> player" where
  "hit_body d st =
     (case draw_card d (ndraws st) of (new_card, k') \<Rightarrow>
      case update_player_card (player_value_cards st) new_card of (v, new_has_usable_ace) \<Rightarrow>
        st\<lparr>player_value_cards := v,
           has_usable_ace := (has_usable_ace st \<or> new_has_usable_ace),
           hist_reward := hist_reward st @ [0],
           hist_action := hist_action st @ [0],
           hist_state := hist_state st @ [(v, has_usable_ace st \<or> new_has_usable_ace)],
           ndraws := k'\<rparr>)"

partial_function (option) hit_loop :: "draws \<Rightarrow> real list list \<Rightarrow> player \<Rightarrow> (error + player) option" where
  "hit_loop d policy st =
     (case policy_hits policy (player_value_cards st) of
        Inl e \<Rightarrow> Some (Inl e)
      | Inr go \<Rightarrow>
          if go
          then (if 21 < player_value_cards (hit_body d st)
                then Some (Inr (hit_body d st))
                else hit_loop d policy (hit_body d st))
          else Some (Inr st))"

text \<open>
  What \<open>blackjack\<close> hands back: the branch for an initial 21 executes \<open>return reward\<close>, the
  end of the function \<open>return reward, hist_reward\<close>.
\<close>

datatype result = Reward int | RewardHist int "int list"

fun reward_of :: "result \<Rightarrow> int" where
  "reward_of (Reward r) = r"
| "reward_of (RewardHist r h) = r"

text \<open>The reward assignment after both hands are played.\<close>

definition final_reward :: "int \<Rightarrow> int \<Rightarrow> int" where
  "final_reward player_value dealer_value =
     (if 21 < player_value then - 1
      else if 21 < dealer_value then 1
      else (if dealer_value < player_value then 1 else 0))"

text \<open>
  The values of \<open>player_value_cards\<close> and \<open>dealer_value_cards\<close> when the function returns,
  kept beside the returned value.
\<close>

record outcome =
  returned :: result
  final_player :: int
  final_dealer :: int

definition init_player :: "int \<Rightarrow> bool \<Rightarrow> player" where
  "init_player v ace =
     \<lparr>player_value_cards = v, has_usable_ace = ace, hist_reward = [0],
      hist_state = [(v, ace)], hist_action = [0], ndraws = 0\<rparr>"

definition blackjack_run ::
  "draws \<Rightarrow> int \<Rightarrow> int list \<Rightarrow> real list list \<Rightarrow> bool \<Rightarrow> (error + outcome) option" where
  "blackjack_run d v dealer_cards policy ace =
     (if v = 21 \<and> sum_list dealer_cards \<noteq> 21
      then Some (Inr \<lparr>returned = Reward 1, final_player = v,
                      final_dealer = sum_list dealer_cards\<rparr>)
      else
        (case hit_loop d policy (init_player v ace) of
           None \<Rightarrow> None
         | Some (Inl e) \<Rightarrow> Some (Inl e)
         | Some (Inr st) \<Rightarrow>
             (case dealer_strategy d (ndraws st) (sum_list dealer_cards) of
                None \<Rightarrow> None
              | Some (dealer_value_cards, k) \<Rightarrow>
                  Some (Inr \<lparr>returned =
                               RewardHist (final_reward (player_value_cards st) dealer_value_cards)
                                 (hist_reward st @
                                    [final_reward (player_value_cards st) dealer_value_cards]),
                             final_player = player_value_cards st,
                             final_dealer = dealer_value_cards\<rparr>))))"

definition blackjack ::
  "draws \<Rightarrow> int \<Rightarrow> int list \<Rightarrow> real list list \<Rightarrow> bool \<Rightarrow> (error + result) option" where
  "blackjack d v dealer_cards policy ace =
     map_option (map_sum id returned) (blackjack_run d v dealer_cards policy ace)"

text \<open>The policy table of the notebook: hit on 12 to 19, stick on 20 and 21.\<close>

definition policy :: "real list list" where
  "policy = replicate 8 [1, 0] @ replicate 2 [0, 1]"

text \<open>Sequences of draws in which every card is worth at least one point.\<close>

definition positive_draws :: "draws \<Rightarrow> bool" where
  "positive_draws d \<longleftrightarrow> (\<forall>i. 0 < d i)"

text \<open>The draws 9, 0, 0, 0, ...: one card of category 9, then category 0 for ever.\<close>

definition bust_then_zeros :: draws where
  "bust_then_zeros i = (if i = 0 then 9 else 0)"

section \<open>Gridworld (ch03/gridworld-example.ipynb)\<close>

text \<open>\<open>range(n)\<close>, and the lookup \<open>m[k]\<close> in a dict, which raises on a missing key.\<close>

definition py_range :: "nat \<Rightarrow> int list" where
  "py_range n = map int [0..<n]"

definition lookup :: "('k \<times> 'v) list \<Rightarrow> 'k \<Rightarrow> error + 'v" where
  "lookup m k = (case map_of m k of None \<Rightarrow> Inl KeyError | Some v \<Rightarrow> Inr v)"

definition n_actions :: nat where
  "n_actions = 4"

definition n_rewards :: nat where
  "n_rewards = 4"

definition state_size :: nat where
  "state_size = 25"

text \<open>
  The dicts of the notebook, as association lists in insertion order (iterating a dict
  yields its keys in that order). The two comprehensions over \<open>enumerate\<close> run over lists
  without repetition, so each element is a key once.
\<close>

definition rewards :: "int list" where
  "rewards = [0, 5, 10, - 1]"

definition reward_map :: "(int \<times> int) list" where
  "reward_map = zip rewards (py_range (length rewards))"

definition actions :: "string list" where
  "actions = [''up'', ''right'', ''down'', ''left'']"

definition actions_ix_map :: "(string \<times> int) list" where
  "actions_ix_map = zip actions (py_range (length actions))"

definition action_map :: "(string \<times> (int \<times> int)) list" where
  "action_map = [(''up'', (- 1, 0)), (''right'', (0, 1)), (''down'', (1, 0)), (''left'', (0, - 1))]"

definition special_map :: "(int \<times> int) list" where
  "special_map = [(1, 10), (3, 5)]"

definition special_states :: "int list" where
  "special_states = [1, 3]"

definition special_state_map :: "(int \<times> int) list" where
  "special_state_map = [(1, 21), (3, 13)]"

text \<open>Positions are (row, column); \<open>//\<close> and \<open>%\<close> round towards minus infinity, as \<open>div\<close> and \<open>mod\<close> do.\<close>

definition get_pos :: "int \<Rightarrow> int \<times> int" where
  "get_pos ix = (ix div 5, ix mod 5)"

definition get_state :: "int \<times> int \<Rightarrow> int" where
  "get_state position = (case position of (row, col) \<Rightarrow> 5 * row + col)"

definition move :: "int \<Rightarrow> string \<Rightarrow> error + (int \<times> int)" where
  "move state action =
     (case get_pos state of (row, col) \<Rightarrow>
      case lookup action_map action of
        Inl e \<Rightarrow> Inl e
      | Inr (d_row, d_col) \<Rightarrow> Inr (row + d_row, col + d_col))"

text \<open>
  \<open>is_out_of_bounds(position, lb=0, ub=4)\<close> does not read its parameter \<open>position\<close>: its body
  tests the global variable \<open>new_pos\<close>, here the first argument.
\<close>

definition is_out_of_bounds :: "int \<times> int \<Rightarrow> int \<times> int \<Rightarrow> int \<Rightarrow> int \<Rightarrow> bool" where
  "is_out_of_bounds new_pos position lb ub =
     (case new_pos of (row, col) \<Rightarrow> (row < lb \<or> col < lb) \<or> (ub < row \<or> ub < col))"

text \<open>
  The array \<open>p_gridworld\<close> of shape \<open>(state_size, n_rewards, n_actions, state_size)\<close>, read
  as \<open>p (s', r, a, s)\<close>. An index along an axis of length \<open>n\<close> follows the rule of
  \<open>getitem\<close>; an assignment outside the shape raises.
\<close>

type_synonym tensor = "int \<times> int \<times> int \<times> int \<Rightarrow> real"

definition zeros :: tensor where
  "zeros = (\<lambda>_. 0)"

definition axis_index :: "nat \<Rightarrow> int \<Rightarrow> error + int" where
  "axis_index n i =
     (if 0 \<le> i \<and> i < int n then Inr i
      else if - int n \<le> i \<and> i < 0 then Inr (int n + i)
      else Inl IndexError)"

definition setitem :: "tensor \<Rightarrow> int \<times> int \<times> int \<times> int \<Rightarrow> real \<Rightarrow> error + tensor" where
  "setitem p ix val =
     (case ix of (i, j, k, l) \<Rightarrow>
      case axis_index state_size i of Inl e \<Rightarrow> Inl e | Inr i' \<Rightarrow>
      case axis_index n_rewards j of Inl e \<Rightarrow> Inl e | Inr j' \<Rightarrow>
      case axis_index n_actions k of Inl e \<Rightarrow> Inl e | Inr k' \<Rightarrow>
      case axis_index state_size l of Inl e \<Rightarrow> Inl e | Inr l' \<Rightarrow>
        Inr (p((i', j', k', l') := val)))"

text \<open>
  The branches of the loop body: from state \<open>s\<close>, reward \<open>r\<close> and the position \<open>new_pos\<close>
  reached by the move, the values of \<open>new_state\<close> and \<open>val\<close> at the assignment
  (\<open>new_state\<close> starts as \<open>get_state(new_pos)\<close>, \<open>val\<close> as 0; the \<open>print\<close> is left out).
\<close>

definition transition :: "int \<Rightarrow> int \<Rightarrow> int \<times> int \<Rightarrow> error + (int \<times> real)" where
  "transition s r new_pos =
     (if s \<in> set special_states then
        (case lookup special_map s of Inl e \<Rightarrow> Inl e | Inr special_reward \<Rightarrow>
         case lookup special_state_map s of Inl e \<Rightarrow> Inl e | Inr new_state \<Rightarrow>
           Inr (new_state, if r = special_reward then 1 else 0))
      else if is_out_of_bounds new_pos new_pos 0 4 then
        Inr (s, if r = - 1 then 1 else 0)
      else if r = 0 then Inr (get_state new_pos, 1)
      else Inr (get_state new_pos, 0))"

text \<open>
  The body of the innermost loop, for state \<open>s\<close>, reward \<open>r\<close> and action name \<open>action\<close>,
  ending in \<open>p_gridworld[new_state, r_pos, a_pos, s] = val\<close>.
\<close>

definition loop_body :: "int \<Rightarrow> int \<Rightarrow> string \<Rightarrow> tensor \<Rightarrow> error + tensor" where
  "loop_body s r action p =
     (case lookup actions_ix_map action of Inl e \<Rightarrow> Inl e | Inr a_pos \<Rightarrow>
      case lookup reward_map r of Inl e \<Rightarrow> Inl e | Inr r_pos \<Rightarrow>
      case move s action of Inl e \<Rightarrow> Inl e | Inr new_pos \<Rightarrow>
      case transition s r new_pos of Inl e \<Rightarrow> Inl e | Inr (new_state, val) \<Rightarrow>
        setitem p (new_state, r_pos, a_pos, s) val)"

text \<open>A \<open>for\<close> loop over a list whose body may raise.\<close>

fun for_each :: "'a list \<Rightarrow> ('a \<Rightarrow> 's \<Rightarrow> error + 's) \<Rightarrow> 's \<Rightarrow> error + 's" where
  "for_each [] body st = Inr st"
| "for_each (x # xs) body st =
     (case body x st of Inl e \<Rightarrow> Inl e | Inr st' \<Rightarrow> for_each xs body st')"

definition p_gridworld_loop :: "error + tensor" where
  "p_gridworld_loop =
     for_each (py_range state_size)
       (\<lambda>s. for_each (map fst reward_map)
          (\<lambda>r. for_each (map fst action_map) (\<lambda>action. loop_body s r action)))
       zeros"

text \<open>
  The last line of the cell divides every entry by the sum of its \<open>(a, s)\<close> slice over the
  first two axes. (Where that sum is 0 NumPy yields \<open>nan\<close> and HOL yields 0; the slices of
  the tensor built above sum to 1.)
\<close>

definition slice_sum :: "tensor \<Rightarrow> int \<Rightarrow> int \<Rightarrow> real" where
  "slice_sum p a s =
     (\<Sum>r \<leftarrow> py_range n_rewards. \<Sum>s' \<leftarrow> py_range state_size. p (s', r, a, s))"

definition normalise :: "tensor \<Rightarrow> tensor" where
  "normalise p = (\<lambda>(s', r, a, s). p (s', r, a, s) / slice_sum p a s)"

definition p_gridworld :: "error + tensor" where
  "p_gridworld = map_sum id normalise p_gridworld_loop"

text \<open>
  The linear system of the uniform policy: \<open>b\<close> sums \<open>r * p\<close> over the first three axes and
  divides by 4; \<open>A\<close> is the identity minus \<open>\<gamma> / 4\<close> times the transpose of \<open>p\<close> summed over
  rewards and actions. Floating-point numbers are read as reals, \<open>\<gamma> = 0.9\<close> as \<open>9/10\<close>.
\<close>

definition gamma :: real where
  "gamma = 9 / 10"

definition b_gridworld :: "tensor \<Rightarrow> int \<Rightarrow> real" where
  "b_gridworld p s =
     (\<Sum>a \<leftarrow> py_range n_actions. \<Sum>r \<leftarrow> py_range n_rewards. \<Sum>s' \<leftarrow> py_range state_size.
        p (s', r, a, s) * real_of_int (rewards ! nat r)) / 4"

definition A_gridworld :: "tensor \<Rightarrow> int \<Rightarrow> int \<Rightarrow> real" where
  "A_gridworld p s s' =
     (if s = s' then 1 else 0)
       - gamma / 4 * (\<Sum>a \<leftarrow> py_range n_actions. \<Sum>r \<leftarrow> py_range n_rewards. p (s', r, a, s))"

text \<open>
  \<open>np.linalg.solve(A, b)\<close> belongs to NumPy; it is taken by its contract in exact
  arithmetic: the vector returned solves \<open>A x = b\<close>.
\<close>

definition solves :: "(int \<Rightarrow> int \<Rightarrow> real) \<Rightarrow> (int \<Rightarrow> real) \<Rightarrow> (int \<Rightarrow> real) \<Rightarrow> bool" where
  "solves A b x \<longleftrightarrow>
     list_all (\<lambda>s. (\<Sum>s' \<leftarrow> py_range state_size. A s s' * x s') = b s) (py_range state_size)"

text \<open>
  The right-hand side of the Bellman equation of the uniform random policy, as the
  notebook's text states it: a quarter of the sum over actions, next states and rewards of
  \<open>p(s', r | s, a) [r + \<gamma> v(s')]\<close>.
\<close>

definition bellman_rhs :: "tensor \<Rightarrow> (int \<Rightarrow> real) \<Rightarrow> int \<Rightarrow> real" where
  "bellman_rhs p v s =
     (\<Sum>a \<leftarrow> py_range n_actions. \<Sum>s' \<leftarrow> py_range state_size. \<Sum>r \<leftarrow> py_range n_rewards.
        p (s', r, a, s) * (real_of_int (rewards ! nat r) + gamma * v s')) / 4"

text \<open>
  The dynamics in closed form, used to describe the tensor that the loops build: where
  state \<open>s\<close> lands under the action of index \<open>a\<close> (0 up, 1 right, 2 down, 3 left) and the
  reward that goes with it.
\<close>

definition landing :: "int \<Rightarrow> int \<Rightarrow> int \<times> int" where
  "landing s a =
     (if s = 1 then (21, 10)
      else if s = 3 then (13, 5)
      else if a = 0 then (if s div 5 = 0 then (s, - 1) else (s - 5, 0))
      else if a = 1 then (if s mod 5 = 4 then (s, - 1) else (s + 1, 0))
      else if a = 2 then (if s div 5 = 4 then (s, - 1) else (s + 5, 0))
      else (if s mod 5 = 0 then (s, - 1) else (s - 1, 0)))"

definition a_ix :: "string \<Rightarrow> int" where
  "a_ix action =
     (if action = ''up'' then 0 else if action = ''right'' then 1
      else if action = ''down'' then 2 else 3)"

definition r_ix :: "int \<Rightarrow> int" where
  "r_ix r = (if r = 0 then 0 else if r = 5 then 1 else if r = 10 then 2 else 3)"

definition entry_key :: "int \<times> int \<times> string \<Rightarrow> int \<times> int \<times> int \<times> int" where
  "entry_key x = (case x of (s, r, action) \<Rightarrow> (fst (landing s (a_ix action)), r_ix r, a_ix action, s))"

definition entry_val :: "int \<times> int \<times> string \<Rightarrow> real" where
  "entry_val x = (case x of (s, r, action) \<Rightarrow> if r = snd (landing s (a_ix action)) then 1 else 0)"

definition p_closed :: tensor where
  "p_closed = (\<lambda>(s', r, a, s).
     if 0 \<le> s \<and> s < 25 \<and> 0 \<le> a \<and> a < 4 \<and> s' = fst (landing s a) \<and> r = r_ix (snd (landing s a))
     then 1 else 0)"

text \<open>Reading one entry of the tensor the cell leaves in \<open>p_gridworld\<close>, if the cell ran through.\<close>

definition p_at :: "error + tensor \<Rightarrow> int \<times> int \<times> int \<times> int \<Rightarrow> error + real" where
  "p_at t ix = (case t of Inl e \<Rightarrow> Inl e | Inr p \<Rightarrow> Inr (p ix))"

text \<open>
  The list of \<open>(s, r, action)\<close> in the order in which the three nested loops visit them.
\<close>

definition triples :: "(int \<times> int \<times> string) list" where
  "triples = List.product (py_range state_size) (List.product (map fst reward_map) (map fst action_map))"

text \<open>
  The exact solution of the linear system of the uniform policy (it rounds to the matrix
  printed in the notebook: 3.3, 8.8, 4.4, 5.3, 1.5, ...).
\<close>

definition v_uniform :: "int \<Rightarrow> real" where
  "v_uniform s = real_of_int (
       [211544423854643298169167140,
        561900194067938611806437000,
        283058079859647880105524940,
        340259423667866966442001300,
        95395117971712620460709090,
        97275257734456238021155900,
        191299141089146571877265310,
        143851642970726069266517550,
        121951225166594507621607060,
        34995502642919560098249700,
        3249086220415010289030040,
        47191310067530511471513150,
        43032189310060237135680690,
        22898875903351882511485050,
        - 25772848400506360592419460,
        - 62241840741701653567862300,
        - 27841260763930657206362040,
        - 22687654230229631535379350,
        - 37437784283473350780490290,
        - 75634092958048846387698500,
        - 118762957932378877109379310,
        - 86000751824179925063213900,
        - 78587163063676813750514360,
        - 90967281086066074723919600,
        - 126273368537110699033237360] ! nat s) / 63930087070970054436332951"

section \<open>Blackjack: unfolding the loops\<close>

lemma policy_hits_policy:
  "policy_hits policy v =
     (if 12 \<le> v \<and> v < 20 \<or> 2 \<le> v \<and> v < 10 then Inr True
      else if 20 \<le> v \<and> v < 22 \<or> 10 \<le> v \<and> v < 12 then Inr False else Inl IndexError)"
  by (auto simp: policy_hits_def getitem_def policy_def nth_append)

lemma hit_loop_stick:
  "policy_hits pol (player_value_cards st) = Inr False \<Longrightarrow> hit_loop d pol st = Some (Inr st)"
  by (subst hit_loop.simps) simp

lemma hit_loop_bust:
  "policy_hits pol (player_value_cards st) = Inr True \<Longrightarrow>
   21 < player_value_cards (hit_body d st) \<Longrightarrow>
   hit_loop d pol st = Some (Inr (hit_body d st))"
  by (subst hit_loop.simps) simp

lemma hit_loop_again:
  "policy_hits pol (player_value_cards st) = Inr True \<Longrightarrow>
   \<not> 21 < player_value_cards (hit_body d st) \<Longrightarrow>
   hit_loop d pol st = hit_loop d pol (hit_body d st)"
  by (subst hit_loop.simps) simp

lemma hit_loop_error:
  "policy_hits pol (player_value_cards st) = Inl e \<Longrightarrow> hit_loop d pol st = Some (Inl e)"
  by (subst hit_loop.simps) simp

lemma dealer_stop: "\<not> v < 17 \<Longrightarrow> dealer_strategy d k v = Some (v, k)"
  by (subst dealer_strategy.simps) simp

lemma dealer_draw:
  "v < 17 \<Longrightarrow> dealer_strategy d k v = dealer_strategy d (Suc k) (v + int (d k))"
  by (subst dealer_strategy.simps) (simp add: draw_card_def)

lemma hit_body_value:
  "0 < d (ndraws st) \<Longrightarrow> player_value_cards st < player_value_cards (hit_body d st)"
  by (simp add: hit_body_def draw_card_def update_player_card_def Let_def)

lemma hit_body_hist:
  "hist_state (hit_body d st) =
     hist_state st @ [(player_value_cards (hit_body d st), has_usable_ace (hit_body d st))]"
  "ndraws (hit_body d st) = Suc (ndraws st)"
  by (simp_all add: hit_body_def draw_card_def split: prod.splits)

subsection \<open>Termination when every card is worth at least one point\<close>

text \<open>
  With cards of positive value the dealer's total grows in every pass, so the loop leaves
  after at most 17 draws; the player's total grows likewise until it passes 21, unless the
  policy lookup stops the loop earlier (by sticking or by raising).
\<close>

lemma dealer_terminates:
  assumes "positive_draws d"
  shows "\<exists>r. dealer_strategy d k v = Some r"
proof (induction "nat (17 - v)" arbitrary: k v rule: less_induct)
  case less
  show ?case
  proof (cases "v < 17")
    case False
    then show ?thesis by (simp add: dealer_stop)
  next
    case True
    have "0 < d k" using assms by (simp add: positive_draws_def)
    with True have "nat (17 - (v + int (d k))) < nat (17 - v)" by simp
    from less[OF this] show ?thesis by (simp add: dealer_draw[OF True])
  qed
qed

lemma hit_terminates:
  assumes "positive_draws d"
  shows "\<exists>r. hit_loop d pol st = Some r"
proof (induction "nat (22 - player_value_cards st)" arbitrary: st rule: less_induct)
  case less
  show ?case
  proof (cases "policy_hits pol (player_value_cards st)")
    case (Inl e)
    then show ?thesis by (simp add: hit_loop_error)
  next
    case (Inr go)
    show ?thesis
    proof (cases go)
      case False
      with Inr show ?thesis by (simp add: hit_loop_stick)
    next
      case True
      with Inr have h: "policy_hits pol (player_value_cards st) = Inr True" by simp
      show ?thesis
      proof (cases "21 < player_value_cards (hit_body d st)")
        case True
        then show ?thesis by (simp add: hit_loop_bust[OF h])
      next
        case nb: False
        have "0 < d (ndraws st)" using assms by (simp add: positive_draws_def)
        from hit_body_value[of d st, OF this] nb
        have "nat (22 - player_value_cards (hit_body d st)) < nat (22 - player_value_cards st)"
          by simp
        from less[OF this] show ?thesis by (simp add: hit_loop_again[OF h nb])
      qed
    qed
  qed
qed

subsection \<open>Divergence when the cards drawn are category 0 from some point on\<close>

lemma dealer_zero_diverges:
  assumes "dealer_strategy d k v = Some r"
  shows "(\<forall>i\<ge>k. d i = 0) \<longrightarrow> \<not> v < 17"
proof (rule dealer_strategy.raw_induct
    [where P = "\<lambda>d k v r. (\<forall>i\<ge>k. d i = 0) \<longrightarrow> \<not> v < 17", OF _ assms])
  fix f d k v r
  assume IH: "\<And>d k v r. f d k v = Some r \<Longrightarrow> (\<forall>i\<ge>k. d i = 0) \<longrightarrow> \<not> v < 17"
    and st: "(if v < 17 then case draw_card d k of (c, k') \<Rightarrow> f d k' (v + c)
              else Some (v, k)) = Some r"
  show "(\<forall>i\<ge>k. d i = 0) \<longrightarrow> \<not> v < 17"
  proof (intro impI notI)
    assume z: "\<forall>i\<ge>k. d i = 0" and lt: "v < 17"
    from st lt have "f d (Suc k) (v + int (d k)) = Some r" by (simp add: draw_card_def)
    from IH[OF this] z lt show False by simp
  qed
qed


lemma hit_zero_diverges:
  assumes "hit_loop d pol st = Some r"
  shows "\<not> ((\<forall>i. d i = 0) \<and> policy_hits pol (player_value_cards st) = Inr True
            \<and> player_value_cards st \<le> 21)"
proof (rule hit_loop.raw_induct
    [where P = "\<lambda>d pol st r. \<not> ((\<forall>i. d i = 0) \<and>
         policy_hits pol (player_value_cards st) = Inr True \<and> player_value_cards st \<le> 21)",
     OF _ assms])
  fix f d pol st r
  assume IH: "\<And>d pol st r. f d pol st = Some r \<Longrightarrow>
      \<not> ((\<forall>i. d i = 0) \<and> policy_hits pol (player_value_cards st) = Inr True
          \<and> player_value_cards st \<le> 21)"
    and st: "(case policy_hits pol (player_value_cards st) of Inl e \<Rightarrow> Some (Inl e)
       | Inr go \<Rightarrow> if go then if 21 < player_value_cards (hit_body d st)
                              then Some (Inr (hit_body d st))
                              else f d pol (hit_body d st)
                   else Some (Inr st)) = Some r"
  show "\<not> ((\<forall>i. d i = 0) \<and> policy_hits pol (player_value_cards st) = Inr True
            \<and> player_value_cards st \<le> 21)"
  proof
    assume a: "(\<forall>i. d i = 0) \<and> policy_hits pol (player_value_cards st) = Inr True
                \<and> player_value_cards st \<le> 21"
    then have same: "player_value_cards (hit_body d st) = player_value_cards st"
      by (simp add: hit_body_def draw_card_def update_player_card_def)
    with a st have "f d pol (hit_body d st) = Some r" by simp
    from IH[OF this] a same show False by simp
  qed
qed

subsection \<open>The hands from which the player draws\<close>

lemma hit_loop_trace:
  assumes run: "hit_loop d pol st = Some res"
  shows "policy_hits pol 20 = Inr False \<and> policy_hits pol 21 = Inr False \<longrightarrow>
     (\<forall>st'. res = Inr st' \<longrightarrow>
        (\<exists>new. hist_state st' = hist_state st @ new \<and> ndraws st' = ndraws st + length new
           \<and> (\<forall>x \<in> set (butlast (player_value_cards st # map fst new)). x \<noteq> 20 \<and> x \<noteq> 21)))"
    (is "?P d pol st res")
proof (rule hit_loop.raw_induct
    [where P = "\<lambda>d pol st res.
       policy_hits pol 20 = Inr False \<and> policy_hits pol 21 = Inr False \<longrightarrow>
       (\<forall>st'. res = Inr st' \<longrightarrow>
          (\<exists>new. hist_state st' = hist_state st @ new \<and> ndraws st' = ndraws st + length new
             \<and> (\<forall>x \<in> set (butlast (player_value_cards st # map fst new)). x \<noteq> 20 \<and> x \<noteq> 21)))",
     OF _ run])
  fix f d pol st res
  assume IH: "\<And>d pol st res. f d pol st = Some res \<Longrightarrow> ?P d pol st res"
    and step: "(case policy_hits pol (player_value_cards st) of Inl e \<Rightarrow> Some (Inl e)
       | Inr go \<Rightarrow> if go then if 21 < player_value_cards (hit_body d st)
                              then Some (Inr (hit_body d st))
                              else f d pol (hit_body d st)
                   else Some (Inr st)) = Some res"
  show "?P d pol st res"
  proof (intro impI allI)
    fix st'
    assume sticks: "policy_hits pol 20 = Inr False \<and> policy_hits pol 21 = Inr False"
      and res: "res = Inr st'"
    let ?Q = "\<lambda>st. \<exists>new. hist_state st' = hist_state st @ new
           \<and> ndraws st' = ndraws st + length new
           \<and> (\<forall>x \<in> set (butlast (player_value_cards st # map fst new)). x \<noteq> 20 \<and> x \<noteq> 21)"
    show "?Q st"
    proof (cases "policy_hits pol (player_value_cards st)")
      case (Inl e)
      with step res show ?thesis by simp
    next
      case (Inr go)
      show ?thesis
      proof (cases go)
        case False
        with Inr step res have "st' = st" by simp
        then show ?thesis by simp
      next
        case True
        with Inr sticks
        have ne: "player_value_cards st \<noteq> 20 \<and> player_value_cards st \<noteq> 21" by auto
        let ?b = "hit_body d st"
        let ?e = "(player_value_cards ?b, has_usable_ace ?b)"
        show ?thesis
        proof (cases "21 < player_value_cards ?b")
          case True
          with Inr \<open>go\<close> step res have "st' = ?b" by simp
          with ne have "hist_state st' = hist_state st @ [?e]
              \<and> ndraws st' = ndraws st + length [?e]
              \<and> (\<forall>x \<in> set (butlast (player_value_cards st # map fst [?e])). x \<noteq> 20 \<and> x \<noteq> 21)"
            by (simp add: hit_body_hist)
          then show ?thesis by blast
        next
          case False
          with Inr \<open>go\<close> step res have "f d pol ?b = Some (Inr st')" by simp
          from IH[OF this] sticks obtain new where
            n: "hist_state st' = hist_state ?b @ new" "ndraws st' = ndraws ?b + length new"
               "\<forall>x \<in> set (butlast (player_value_cards ?b # map fst new)). x \<noteq> 20 \<and> x \<noteq> 21"
            by blast
          from n ne have "hist_state st' = hist_state st @ (?e # new)
              \<and> ndraws st' = ndraws st + length (?e # new)
              \<and> (\<forall>x \<in> set (butlast (player_value_cards st # map fst (?e # new))).
                    x \<noteq> 20 \<and> x \<noteq> 21)"
            by (simp add: hit_body_hist)
          then show ?thesis by blast
        qed
      qed
    qed
  qed
qed

section \<open>Blackjack: the claims\<close>

text \<open>
  C2. The claim: for every initial hand, dealer hand, policy table and sequence of draws,
  \<open>blackjack\<close> returns a pair of a terminal reward and a step history, in every branch,
  also the one where the player starts with 21. The code at a hand of 21 against a dealer
  hand of 16: whatever the draws, the value returned is the bare reward 1, with no history.
\<close>

theorem C2_initial_21_returns_bare_reward:
  "blackjack d 21 [10, 6] policy False = Some (Inr (Reward 1))"
  by (simp add: blackjack_def blackjack_run_def)

text \<open>
  With cards of positive value the reward for a bust is returned: the dealer's loop, which
  the function runs before it assigns the reward, then comes to an end.
\<close>

lemma bust_reward_positive_draws:
  assumes pos: "positive_draws d"
    and reached: "\<not> (v = 21 \<and> sum_list dealer_cards \<noteq> 21)"
    and loop: "hit_loop d pol (init_player v ace) = Some (Inr st)"
    and bust: "21 < player_value_cards st"
  shows "blackjack d v dealer_cards pol ace =
           Some (Inr (RewardHist (- 1) (hist_reward st @ [- 1])))"
proof -
  from dealer_terminates[OF pos] obtain dv k where
    "dealer_strategy d (ndraws st) (sum_list dealer_cards) = Some (dv, k)" by fastforce
  with reached loop bust show ?thesis
    by (simp add: blackjack_def blackjack_run_def final_reward_def)
qed

text \<open>
  C4. The claim: for every sequence of draws, a player total above 21 at the end of the hit
  loop makes \<open>blackjack\<close> return reward -1, whatever the dealer does. The code runs the
  dealer's loop before it assigns the reward: on the draws 9, 0, 0, ... (each a category of
  positive probability) the player goes from 13 to 22, the dealer's loop started at 16
  never returns, and so \<open>blackjack\<close> returns nothing.
\<close>

theorem C4_bust_then_dealer_never_returns:
  "can_produce deck_probs bust_then_zeros
   \<and> hit_loop bust_then_zeros policy (init_player 13 False) = Some (Inr
        \<lparr>player_value_cards = 22, has_usable_ace = False, hist_reward = [0, 0],
         hist_state = [(13, False), (22, False)], hist_action = [0, 0], ndraws = 1\<rparr>)
   \<and> dealer_strategy bust_then_zeros 1 (sum_list [10, 6]) = None
   \<and> blackjack bust_then_zeros 13 [10, 6] policy False = None"
proof -
  let ?st = "\<lparr>player_value_cards = 22, has_usable_ace = False, hist_reward = [0, 0],
         hist_state = [(13, False), (22, False)], hist_action = [0, 0], ndraws = 1\<rparr>"
  have a: "can_produce deck_probs bust_then_zeros"
    by (simp add: can_produce_def deck_probs_def bust_then_zeros_def nth_append)
  have l: "hit_loop bust_then_zeros policy (init_player 13 False) = Some (Inr ?st)"
    by (simp add: hit_loop_bust policy_hits_policy init_player_def hit_body_def draw_card_def
        update_player_card_def bust_then_zeros_def)
  have dl: "dealer_strategy bust_then_zeros 1 (sum_list [10, 6]) = None"
    using dealer_zero_diverges[of bust_then_zeros 1 16]
    by (cases "dealer_strategy bust_then_zeros 1 16") (auto simp: bust_then_zeros_def)
  have b: "blackjack bust_then_zeros 13 [10, 6] policy False = None"
    using l dl by (simp add: blackjack_def blackjack_run_def)
  from a l dl b show ?thesis by simp
qed

text \<open>
  C5. For a policy table whose rows for 20 and for 21 mark stick: the hit loop entered
  with a hand of 20 or 21 returns at once, its locals and the number of cards drawn
  unchanged; and in every run of the loop that returns, each hand value from which one of
  the new cards was drawn (the starting value and every recorded value but the last) is
  neither 20 nor 21.
\<close>

theorem C5_no_draw_after_20_or_21:
  assumes s20: "policy_hits pol 20 = Inr False"
    and s21: "policy_hits pol 21 = Inr False"
  shows "(player_value_cards st = 20 \<or> player_value_cards st = 21 \<longrightarrow>
            hit_loop d pol st = Some (Inr st))
     \<and> (\<forall>st'. hit_loop d pol st = Some (Inr st') \<longrightarrow>
          (\<exists>new. hist_state st' = hist_state st @ new
             \<and> ndraws st' = ndraws st + length new
             \<and> (\<forall>x \<in> set (butlast (player_value_cards st # map fst new)).
                   x \<noteq> 20 \<and> x \<noteq> 21)))"
proof (intro conjI impI allI)
  assume "player_value_cards st = 20 \<or> player_value_cards st = 21"
  with s20 s21 have "policy_hits pol (player_value_cards st) = Inr False" by auto
  then show "hit_loop d pol st = Some (Inr st)" by (rule hit_loop_stick)
next
  fix st'
  assume "hit_loop d pol st = Some (Inr st')"
  from hit_loop_trace[OF this] s20 s21
  show "\<exists>new. hist_state st' = hist_state st @ new
             \<and> ndraws st' = ndraws st + length new
             \<and> (\<forall>x \<in> set (butlast (player_value_cards st # map fst new)).
                   x \<noteq> 20 \<and> x \<noteq> 21)"
    by blast
qed

theorem C5_no_draw_after_20_or_21_witness:
  "policy_hits policy 20 = Inr False \<and> policy_hits policy 21 = Inr False
   \<and> hit_loop (\<lambda>_. 4) policy (init_player 12 False) = Some (Inr
        \<lparr>player_value_cards = 20, has_usable_ace = False, hist_reward = [0, 0, 0],
         hist_state = [(12, False), (16, False), (20, False)], hist_action = [0, 0, 0],
         ndraws = 2\<rparr>)
   \<and> hit_loop (\<lambda>_. 4) policy
        \<lparr>player_value_cards = 20, has_usable_ace = False, hist_reward = [0, 0, 0],
         hist_state = [(12, False), (16, False), (20, False)], hist_action = [0, 0, 0],
         ndraws = 2\<rparr> = Some (Inr
        \<lparr>player_value_cards = 20, has_usable_ace = False, hist_reward = [0, 0, 0],
         hist_state = [(12, False), (16, False), (20, False)], hist_action = [0, 0, 0],
         ndraws = 2\<rparr>)
   \<and> (\<exists>new. [(12, False), (16, False), (20, False)] = [(12::int, False)] @ new
         \<and> (2::nat) = 0 + length new
         \<and> (\<forall>x \<in> set (butlast (12 # map fst new)). x \<noteq> 20 \<and> x \<noteq> 21))"
proof -
  let ?st = "\<lparr>player_value_cards = 20, has_usable_ace = False, hist_reward = [0, 0, 0],
         hist_state = [(12, False), (16, False), (20, False)], hist_action = [0, 0, 0],
         ndraws = 2\<rparr>"
  have s20: "policy_hits policy 20 = Inr False" and s21: "policy_hits policy 21 = Inr False"
    by (simp_all add: policy_hits_policy)
  have run: "hit_loop (\<lambda>_. 4) policy (init_player 12 False) = Some (Inr ?st)"
    by (simp add: hit_loop_again hit_loop_stick policy_hits_policy init_player_def hit_body_def
        draw_card_def update_player_card_def)
  note c5 = C5_no_draw_after_20_or_21[OF s20 s21]
  from c5[of ?st "\<lambda>_. 4"] have stay: "hit_loop (\<lambda>_. 4) policy ?st = Some (Inr ?st)"
    by simp
  from c5[of "init_player 12 False" "\<lambda>_. 4"] run
  have "\<exists>new. hist_state ?st = hist_state (init_player 12 False) @ new
         \<and> ndraws ?st = ndraws (init_player 12 False) + length new
         \<and> (\<forall>x \<in> set (butlast (player_value_cards (init_player 12 False) # map fst new)).
              x \<noteq> 20 \<and> x \<noteq> 21)"
    by blast
  then have tr: "\<exists>new. [(12, False), (16, False), (20, False)] = [(12::int, False)] @ new
         \<and> (2::nat) = 0 + length new
         \<and> (\<forall>x \<in> set (butlast (12 # map fst new)). x \<noteq> 20 \<and> x \<noteq> 21)"
    by (simp add: init_player_def)
  from s20 s21 run stay tr show ?thesis by blast
qed

text \<open>
  C7. The claim: the hit loop and the dealer's loop terminate for every infinite sequence of
  draws that \<open>draw_card\<close> can produce. The code: \<open>draw_card\<close> returns the index of the sampled
  category, and category 0 has positive probability, so the sequence of all zeros can be
  produced; on it the dealer's loop started at 16 and the hit loop started at 12 (under the
  notebook's policy) never return.
\<close>

theorem C7_loops_diverge_on_zero_cards:
  "can_produce deck_probs (\<lambda>_. 0)
   \<and> dealer_strategy (\<lambda>_. 0) 0 16 = None
   \<and> hit_loop (\<lambda>_. 0) policy (init_player 12 False) = None"
proof -
  have a: "can_produce deck_probs (\<lambda>_. 0)"
    by (simp add: can_produce_def deck_probs_def nth_append)
  have b: "dealer_strategy (\<lambda>_. 0) 0 16 = None"
    using dealer_zero_diverges[of "\<lambda>_. 0" 0 16]
    by (cases "dealer_strategy (\<lambda>_. 0) 0 16") auto
  have c: "hit_loop (\<lambda>_. 0) policy (init_player 12 False) = None"
    using hit_zero_diverges[of "\<lambda>_. 0" policy "init_player 12 False"]
    by (cases "hit_loop (\<lambda>_. 0) policy (init_player 12 False)")
       (auto simp: policy_hits_policy init_player_def)
  from a b c show ?thesis by simp
qed

text \<open>
  C9. For every game that \<open>blackjack\<close> plays to its return: if both final totals are at most
  21 and the player's is less than or equal to the dealer's, the reward returned is 0; and
  the reward returned is -1 only if the player's final total exceeds 21.
\<close>

theorem C9_no_bust_not_above_dealer_reward_zero:
  assumes "blackjack_run d v dealer_cards pol ace = Some (Inr out)"
  shows "blackjack d v dealer_cards pol ace = Some (Inr (returned out))
     \<and> (final_player out \<le> 21 \<and> final_dealer out \<le> 21
          \<and> final_player out \<le> final_dealer out \<longrightarrow> reward_of (returned out) = 0)
     \<and> (reward_of (returned out) = - 1 \<longrightarrow> 21 < final_player out)"
proof -
  have a: "blackjack d v dealer_cards pol ace = Some (Inr (returned out))"
    using assms by (simp add: blackjack_def)
  have b: "final_player out \<le> 21 \<and> final_dealer out \<le> 21
          \<and> final_player out \<le> final_dealer out \<longrightarrow> reward_of (returned out) = 0"
    using assms
    by (auto simp: blackjack_run_def final_reward_def split: if_splits option.splits sum.splits)
  have c: "reward_of (returned out) = - 1 \<longrightarrow> 21 < final_player out"
    using assms
    by (auto simp: blackjack_run_def final_reward_def split: if_splits option.splits sum.splits)
  from a b c show ?thesis by simp
qed

theorem C9_no_bust_not_above_dealer_reward_zero_witness:
  "blackjack_run (\<lambda>_. 10) 20 [10, 10] policy False =
      Some (Inr \<lparr>returned = RewardHist 0 [0, 0], final_player = 20, final_dealer = 20\<rparr>)
   \<and> blackjack (\<lambda>_. 10) 20 [10, 10] policy False = Some (Inr (RewardHist 0 [0, 0]))
   \<and> blackjack_run (\<lambda>_. 10) 12 [10, 6] policy False =
      Some (Inr \<lparr>returned = RewardHist (- 1) [0, 0, - 1], final_player = 22,
                 final_dealer = 26\<rparr>)
   \<and> blackjack (\<lambda>_. 10) 12 [10, 6] policy False = Some (Inr (RewardHist (- 1) [0, 0, - 1]))"
proof -
  have g1: "blackjack_run (\<lambda>_. 10) 20 [10, 10] policy False =
      Some (Inr \<lparr>returned = RewardHist 0 [0, 0], final_player = 20, final_dealer = 20\<rparr>)"
    by (simp add: blackjack_run_def hit_loop_stick policy_hits_policy init_player_def dealer_stop
        final_reward_def)
  have g2: "blackjack_run (\<lambda>_. 10) 12 [10, 6] policy False =
      Some (Inr \<lparr>returned = RewardHist (- 1) [0, 0, - 1], final_player = 22,
                 final_dealer = 26\<rparr>)"
    by (simp add: blackjack_run_def hit_loop_bust policy_hits_policy init_player_def hit_body_def
        draw_card_def update_player_card_def dealer_draw dealer_stop final_reward_def)
  from C9_no_bust_not_above_dealer_reward_zero[OF g1]
  have r1: "blackjack (\<lambda>_. 10) 20 [10, 10] policy False = Some (Inr (RewardHist 0 [0, 0]))"
    by simp
  from C9_no_bust_not_above_dealer_reward_zero[OF g2]
  have r2: "blackjack (\<lambda>_. 10) 12 [10, 6] policy False = Some (Inr (RewardHist (- 1) [0, 0, - 1]))"
    by simp
  from g1 g2 r1 r2 show ?thesis by simp
qed

section \<open>Gridworld: the tensor in closed form\<close>

subsection \<open>Loops as folds, and folds of point updates\<close>

lemma for_each_fold:
  assumes "\<And>x st. x \<in> set xs \<Longrightarrow> body x st = Inr (g x st)"
  shows "for_each xs body st = Inr (fold g xs st)"
  using assms by (induction xs arbitrary: st) simp_all

lemma fold_product:
  "fold f (List.product xs ys) = fold (\<lambda>x. fold (\<lambda>y. f (x, y)) ys) xs"
  by (induction xs) (simp_all add: fold_map comp_def)

lemma fold_upd_other:
  "k \<notin> key ` set xs \<Longrightarrow> fold (\<lambda>x p. p(key x := val x)) xs p0 k = p0 k"
  by (induction xs arbitrary: p0) auto

lemma fold_upd_hit:
  "inj_on key (set xs) \<Longrightarrow> x \<in> set xs \<Longrightarrow> fold (\<lambda>x p. p(key x := val x)) xs p0 (key x) = val x"
proof (induction xs arbitrary: p0)
  case Nil then show ?case by simp
next
  case (Cons y ys)
  show ?case
  proof (cases "x \<in> set ys")
    case True
    with Cons show ?thesis by (simp add: inj_on_def)
  next
    case False
    with Cons.prems have xy: "x = y" by simp
    from Cons.prems False xy have "key x \<notin> key ` set ys" by (auto simp: inj_on_def)
    then have "fold (\<lambda>x p. p(key x := val x)) ys (p0(key y := val y)) (key x) = (p0(key y := val y)) (key x)"
      by (rule fold_upd_other)
    then show ?thesis unfolding xy by (simp only: fold_simps comp_apply fun_upd_same)
  qed
qed

lemma reward_map_eq: "reward_map = [(0, 0), (5, 1), (10, 2), (- 1, 3)]"
  by (simp add: reward_map_def rewards_def py_range_def upt_rec)

lemma actions_ix_map_eq: "actions_ix_map = [(''up'', 0), (''right'', 1), (''down'', 2), (''left'', 3)]"
  by (simp add: actions_ix_map_def actions_def py_range_def upt_rec)

lemma lookup_reward: "r \<in> set rewards \<Longrightarrow> lookup reward_map r = Inr (r_ix r)"
  by (auto simp: lookup_def reward_map_eq rewards_def r_ix_def)

lemma lookup_action: "action \<in> set actions \<Longrightarrow> lookup actions_ix_map action = Inr (a_ix action)"
  by (auto simp: lookup_def actions_ix_map_eq actions_def a_ix_def)

lemma row_col:
  fixes s :: int
  assumes "0 \<le> s" "s < 25"
  shows "0 \<le> s div 5 \<and> s div 5 \<le> 4 \<and> 0 \<le> s mod 5 \<and> s mod 5 \<le> 4 \<and> s = 5 * (s div 5) + s mod 5"
proof -
  have m: "0 \<le> s mod 5" "s mod 5 < 5" by simp_all
  have e: "s = 5 * (s div 5) + s mod 5" by simp
  from e m assms have "0 \<le> s div 5" "s div 5 \<le> 4" by linarith+
  with m e show ?thesis by linarith
qed

lemma grid_arith:
  fixes s :: int
  assumes "0 \<le> s" "s < 25"
  shows "s div 5 \<noteq> 0 \<Longrightarrow> 5 \<le> s" and "s mod 5 \<noteq> 4 \<Longrightarrow> s + 1 < 25"
    and "s div 5 \<noteq> 4 \<Longrightarrow> s + 5 < 25" and "s mod 5 \<noteq> 0 \<Longrightarrow> 1 \<le> s"
  using row_col[OF assms] by linarith+

lemma landing_range:
  assumes "0 \<le> s" "s < 25"
  shows "0 \<le> fst (landing s a) \<and> fst (landing s a) < 25"
  using assms grid_arith[OF assms] unfolding landing_def by auto

lemma setitem_in_range:
  assumes "0 \<le> i" "i < 25" "0 \<le> j" "j < 4" "0 \<le> k" "k < 4" "0 \<le> l" "l < 25"
  shows "setitem p (i, j, k, l) v = Inr (p((i, j, k, l) := v))"
  using assms by (simp add: setitem_def axis_index_def state_size_def n_rewards_def n_actions_def)

lemma a_ix_range: "0 \<le> a_ix action \<and> a_ix action < 4"
  by (simp add: a_ix_def)

lemma r_ix_range: "0 \<le> r_ix r \<and> r_ix r < 4"
  by (simp add: r_ix_def)

lemma move_eq:
  "move s ''up'' = Inr (s div 5 - 1, s mod 5)"
  "move s ''right'' = Inr (s div 5, s mod 5 + 1)"
  "move s ''down'' = Inr (s div 5 + 1, s mod 5)"
  "move s ''left'' = Inr (s div 5, s mod 5 - 1)"
  by (simp_all add: move_def get_pos_def lookup_def action_map_def)

lemma special_lookups:
  "lookup special_map 1 = Inr 10" "lookup special_map 3 = Inr 5"
  "lookup special_state_map 1 = Inr 21" "lookup special_state_map 3 = Inr 13"
  by (simp_all add: lookup_def special_map_def special_state_map_def)

lemma transition_special:
  "transition 1 r np = Inr (21, if r = 10 then 1 else 0)"
  "transition 3 r np = Inr (13, if r = 5 then 1 else 0)"
  by (simp_all add: transition_def special_states_def special_lookups)

lemma transition_plain:
  "s \<noteq> 1 \<Longrightarrow> s \<noteq> 3 \<Longrightarrow> transition s r np =
     (if is_out_of_bounds np np 0 4 then Inr (s, if r = - 1 then 1 else 0)
      else Inr (get_state np, if r = 0 then 1 else 0))"
  by (simp add: transition_def special_states_def)

lemma out_of_bounds_moves:
  assumes "0 \<le> s" "s < 25"
  shows "is_out_of_bounds (s div 5 - 1, s mod 5) q 0 4 \<longleftrightarrow> s div 5 = 0"
    and "is_out_of_bounds (s div 5, s mod 5 + 1) q 0 4 \<longleftrightarrow> s mod 5 = 4"
    and "is_out_of_bounds (s div 5 + 1, s mod 5) q 0 4 \<longleftrightarrow> s div 5 = 4"
    and "is_out_of_bounds (s div 5, s mod 5 - 1) q 0 4 \<longleftrightarrow> s mod 5 = 0"
  using row_col[OF assms] unfolding is_out_of_bounds_def by auto

lemma get_state_moves:
  "get_state (s div 5 - 1, s mod 5) = s - 5"
  "get_state (s div 5, s mod 5 + 1) = s + 1"
  "get_state (s div 5 + 1, s mod 5) = s + 5"
  "get_state (s div 5, s mod 5 - 1) = s - 1"
  unfolding get_state_def by simp_all

lemma transition_eq:
  assumes s: "0 \<le> s" "s < 25" and a: "action \<in> set actions" and m: "move s action = Inr np"
  shows "transition s r np =
     Inr (fst (landing s (a_ix action)), if r = snd (landing s (a_ix action)) then 1 else 0)"
proof (cases "s = 1 \<or> s = 3")
  case True
  then show ?thesis by (auto simp: transition_special landing_def)
next
  case False
  then have ns: "s \<noteq> 1" "s \<noteq> 3" by simp_all
  from a consider "action = ''up''" | "action = ''right''" | "action = ''down''" | "action = ''left''"
    by (auto simp: actions_def)
  then show ?thesis
  proof cases
    case 1
    with m have "np = (s div 5 - 1, s mod 5)" by (simp add: move_eq)
    then show ?thesis using ns 1
      by (simp add: transition_plain out_of_bounds_moves[OF s] get_state_moves landing_def a_ix_def)
  next
    case 2
    with m have "np = (s div 5, s mod 5 + 1)" by (simp add: move_eq)
    then show ?thesis using ns 2
      by (simp add: transition_plain out_of_bounds_moves[OF s] get_state_moves landing_def a_ix_def)
  next
    case 3
    with m have "np = (s div 5 + 1, s mod 5)" by (simp add: move_eq)
    then show ?thesis using ns 3
      by (simp add: transition_plain out_of_bounds_moves[OF s] get_state_moves landing_def a_ix_def)
  next
    case 4
    with m have "np = (s div 5, s mod 5 - 1)" by (simp add: move_eq)
    then show ?thesis using ns 4
      by (simp add: transition_plain out_of_bounds_moves[OF s] get_state_moves landing_def a_ix_def)
  qed
qed

lemma move_defined: "action \<in> set actions \<Longrightarrow> \<exists>np. move s action = Inr np"
  by (auto simp: actions_def move_eq)

lemma loop_body_eq:
  assumes s: "0 \<le> s" "s < 25" and r: "r \<in> set rewards" and a: "action \<in> set actions"
  shows "loop_body s r action p = Inr (p(entry_key (s, r, action) := entry_val (s, r, action)))"
proof -
  have la: "lookup actions_ix_map action = Inr (a_ix action)" using a by (rule lookup_action)
  have lr: "lookup reward_map r = Inr (r_ix r)" using r by (rule lookup_reward)
  from move_defined[OF a] obtain np where m: "move s action = Inr np" by blast
  note tr = transition_eq[OF s a m, of r]
  have "setitem p (fst (landing s (a_ix action)), r_ix r, a_ix action, s) (entry_val (s, r, action))
      = Inr (p((fst (landing s (a_ix action)), r_ix r, a_ix action, s) := entry_val (s, r, action)))"
    using landing_range[OF s, of "a_ix action"] a_ix_range[of action] r_ix_range[of r] s
    by (intro setitem_in_range) simp_all
  then show ?thesis
    by (simp add: loop_body_def la lr m tr entry_key_def entry_val_def)
qed

lemma keys_eq: "map fst reward_map = rewards" "map fst action_map = actions"
  by (simp_all add: reward_map_eq rewards_def action_map_def actions_def)

lemma set_py_range: "set (py_range n) = {0..<int n}"
proof -
  have "x \<in> int ` {0..<n}" if "0 \<le> x" "x < int n" for x
  proof -
    from that have "nat x \<in> {0..<n}" "x = int (nat x)" by simp_all
    then show ?thesis by (rule_tac image_eqI)
  qed
  then show ?thesis by (auto simp: py_range_def)
qed

lemma p_gridworld_loop_fold:
  "p_gridworld_loop = Inr (fold (\<lambda>x p. p(entry_key x := entry_val x)) triples zeros)"
proof -
  have inner: "for_each actions (\<lambda>action. loop_body s r action) p =
      Inr (fold (\<lambda>action p. p(entry_key (s, r, action) := entry_val (s, r, action))) actions p)"
    if "0 \<le> s" "s < 25" "r \<in> set rewards" for s r p
    by (rule for_each_fold) (simp add: loop_body_eq that)
  have middle: "for_each rewards (\<lambda>r. for_each actions (\<lambda>action. loop_body s r action)) p =
      Inr (fold (\<lambda>r. fold (\<lambda>action p. p(entry_key (s, r, action) := entry_val (s, r, action))) actions) rewards p)"
    if "0 \<le> s" "s < 25" for s p
    by (rule for_each_fold) (simp add: inner that)
  have outer: "for_each (py_range state_size) (\<lambda>s. for_each rewards (\<lambda>r. for_each actions (\<lambda>action. loop_body s r action))) p =
      Inr (fold (\<lambda>s. fold (\<lambda>r. fold (\<lambda>action p. p(entry_key (s, r, action) := entry_val (s, r, action))) actions) rewards) (py_range state_size) p)"
    for p
    by (rule for_each_fold) (simp add: middle set_py_range state_size_def)
  show ?thesis
    unfolding p_gridworld_loop_def triples_def keys_eq outer fold_product ..
qed


lemma set_triples:
  "set triples = {(s, r, action). 0 \<le> s \<and> s < 25 \<and> r \<in> set rewards \<and> action \<in> set actions}"
  by (auto simp: triples_def keys_eq set_py_range state_size_def)

lemma snd_landing: "snd (landing s a) \<in> set rewards"
  by (simp add: landing_def rewards_def)

lemma r_ix_inj: "r \<in> set rewards \<Longrightarrow> r' \<in> set rewards \<Longrightarrow> r_ix r = r_ix r' \<longleftrightarrow> r = r'"
  by (auto simp: rewards_def r_ix_def)

lemma a_ix_inj: "a \<in> set actions \<Longrightarrow> a' \<in> set actions \<Longrightarrow> a_ix a = a_ix a' \<longleftrightarrow> a = a'"
  by (auto simp: actions_def a_ix_def)

lemma a_ix_onto:
  assumes "0 \<le> a" "a < 4" shows "\<exists>action \<in> set actions. a_ix action = a"
proof -
  from assms have "a = 0 \<or> a = 1 \<or> a = 2 \<or> a = 3" by presburger
  then show ?thesis by (auto simp: actions_def a_ix_def)
qed

lemma entry_key_inj: "inj_on entry_key (set triples)"
  by (auto simp: inj_on_def set_triples entry_key_def r_ix_inj a_ix_inj)

lemma p_loop_closed:
  "fold (\<lambda>x p. p(entry_key x := entry_val x)) triples zeros = p_closed"
proof
  fix k :: "int \<times> int \<times> int \<times> int"
  obtain s' ri ai s where k: "k = (s', ri, ai, s)" by (cases k) auto
  show "fold (\<lambda>x p. p(entry_key x := entry_val x)) triples zeros k = p_closed k"
  proof (cases "k \<in> entry_key ` set triples")
    case True
    then obtain x where x: "x \<in> set triples" "k = entry_key x" by blast
    obtain s0 r action where x3: "x = (s0, r, action)" by (cases x) auto
    from x(1) x3 have mem: "0 \<le> s0" "s0 < 25" "r \<in> set rewards" "action \<in> set actions"
      by (simp_all add: set_triples)
    have "fold (\<lambda>x p. p(entry_key x := entry_val x)) triples zeros (entry_key x) = entry_val x"
      using entry_key_inj x(1) by (rule fold_upd_hit)
    moreover have "p_closed (entry_key x) = entry_val x"
      using mem a_ix_range[of action] r_ix_inj[OF mem(3) snd_landing, of s0 "a_ix action"]
      by (simp add: x3 p_closed_def entry_key_def entry_val_def)
    ultimately show ?thesis by (simp add: x(2))
  next
    case False
    then have "fold (\<lambda>x p. p(entry_key x := entry_val x)) triples zeros k = zeros k"
      by (rule fold_upd_other)
    moreover have "p_closed k = 0"
    proof (rule ccontr)
      assume "p_closed k \<noteq> 0"
      then have c: "0 \<le> s" "s < 25" "0 \<le> ai" "ai < 4" "s' = fst (landing s ai)"
          "ri = r_ix (snd (landing s ai))"
        by (auto simp: k p_closed_def split: if_splits)
      from a_ix_onto[OF c(3,4)] obtain action where a: "action \<in> set actions" "a_ix action = ai"
        by blast
      have "(s, snd (landing s ai), action) \<in> set triples"
        using c a snd_landing by (simp add: set_triples)
      moreover have "entry_key (s, snd (landing s ai), action) = k"
        using c a by (simp add: k entry_key_def)
      ultimately show False using False by force
    qed
    ultimately show ?thesis by (simp add: zeros_def)
  qed
qed

lemma p_gridworld_loop_closed: "p_gridworld_loop = Inr p_closed"
  by (simp add: p_gridworld_loop_fold p_loop_closed)

lemma sum_list_indicator:
  "distinct xs \<Longrightarrow> (\<Sum>x \<leftarrow> xs. if x = c then (1::real) else 0) = (if c \<in> set xs then 1 else 0)"
  by (induction xs) auto

lemma sum_list_indicator_conj:
  "distinct xs \<Longrightarrow> (\<Sum>x \<leftarrow> xs. if x = c \<and> Q then (1::real) else 0) = (if c \<in> set xs \<and> Q then 1 else 0)"
  by (cases Q) (simp_all add: sum_list_indicator)

lemma distinct_py_range: "distinct (py_range n)"
  by (simp add: py_range_def distinct_map inj_on_def)

lemma slice_sum_closed:
  assumes "0 \<le> s" "s < 25" "0 \<le> a" "a < 4"
  shows "slice_sum p_closed a s = 1"
proof -
  have inner: "(\<Sum>s' \<leftarrow> py_range state_size. p_closed (s', r, a, s))
      = (if r = r_ix (snd (landing s a)) then 1 else 0)" for r
    using assms landing_range[OF assms(1,2), of a]
    by (simp add: p_closed_def sum_list_indicator_conj distinct_py_range set_py_range state_size_def)
  show ?thesis
    unfolding slice_sum_def inner
    using r_ix_range[of "snd (landing s a)"]
    by (simp add: sum_list_indicator distinct_py_range set_py_range n_rewards_def)
qed

lemma normalise_closed: "normalise p_closed = p_closed"
proof
  fix k :: "int \<times> int \<times> int \<times> int"
  obtain s' r a s where k: "k = (s', r, a, s)" by (cases k) auto
  show "normalise p_closed k = p_closed k"
  proof (cases "0 \<le> s \<and> s < 25 \<and> 0 \<le> a \<and> a < 4")
    case True
    then show ?thesis by (simp add: k normalise_def slice_sum_closed)
  next
    case False
    then have "p_closed k = 0" by (auto simp: k p_closed_def)
    then show ?thesis by (simp add: k normalise_def)
  qed
qed

lemma p_gridworld_closed: "p_gridworld = Inr p_closed"
  by (simp add: p_gridworld_def p_gridworld_loop_closed normalise_closed)

lemma py_range_4: "py_range 4 = [0, 1, 2, 3]"
  by (simp add: py_range_def upt_rec)

lemma reward_at: "0 \<le> r \<Longrightarrow> r < 4 \<Longrightarrow> rewards ! nat r = c \<longleftrightarrow> r = r_ix c \<and> c \<in> set rewards"
proof -
  assume "0 \<le> r" "r < 4"
  then have "r = 0 \<or> r = 1 \<or> r = 2 \<or> r = 3" by presburger
  then show ?thesis by (auto simp: rewards_def r_ix_def)
qed

lemma landing_out_of_bounds:
  assumes s: "0 \<le> s" "s < 25" and ns: "s \<notin> set special_states" and a: "action \<in> set actions"
    and m: "move s action = Inr np" and o: "is_out_of_bounds np np 0 4"
  shows "landing s (a_ix action) = (s, - 1)"
proof -
  from ns have ns': "s \<noteq> 1" "s \<noteq> 3" by (simp_all add: special_states_def)
  from a consider "action = ''up''" | "action = ''right''" | "action = ''down''" | "action = ''left''"
    by (auto simp: actions_def)
  then show ?thesis
  proof cases
    case 1
    with m o show ?thesis using ns' by (auto simp: move_eq out_of_bounds_moves[OF s] landing_def a_ix_def)
  next
    case 2
    with m o show ?thesis using ns' by (auto simp: move_eq out_of_bounds_moves[OF s] landing_def a_ix_def)
  next
    case 3
    with m o show ?thesis using ns' by (auto simp: move_eq out_of_bounds_moves[OF s] landing_def a_ix_def)
  next
    case 4
    with m o show ?thesis using ns' by (auto simp: move_eq out_of_bounds_moves[OF s] landing_def a_ix_def)
  qed
qed

lemma lookup_action_conv: "lookup actions_ix_map action = Inr a \<longleftrightarrow> action \<in> set actions \<and> a = a_ix action"
  by (auto simp: lookup_def actions_ix_map_eq actions_def a_ix_def)

section \<open>Gridworld: the linear system\<close>

lemma sum_list_swap:
  fixes f :: "'a \<Rightarrow> 'b \<Rightarrow> real"
  shows "(\<Sum>x \<leftarrow> xs. \<Sum>y \<leftarrow> ys. f x y) = (\<Sum>y \<leftarrow> ys. \<Sum>x \<leftarrow> xs. f x y)"
  by (induction xs) (simp_all add: sum_list_addf)

lemma sum_list_pick:
  fixes f :: "'a \<Rightarrow> real"
  shows "distinct xs \<Longrightarrow>
     (\<Sum>x \<leftarrow> xs. (if c = x then 1 else 0) * f x) = (if c \<in> set xs then f c else 0)"
  by (induction xs) auto

lemma A_times_v:
  assumes "s \<in> set (py_range state_size)"
  shows "(\<Sum>s' \<leftarrow> py_range state_size. A_gridworld p s s' * v s') =
     v s - gamma / 4 * (\<Sum>s' \<leftarrow> py_range state_size. \<Sum>a \<leftarrow> py_range n_actions.
                           \<Sum>r \<leftarrow> py_range n_rewards. p (s', r, a, s) * v s')"
proof -
  have "(\<Sum>s' \<leftarrow> py_range state_size. A_gridworld p s s' * v s') =
      (\<Sum>s' \<leftarrow> py_range state_size. (if s = s' then 1 else 0) * v s')
      - (\<Sum>s' \<leftarrow> py_range state_size. gamma / 4 *
           ((\<Sum>a \<leftarrow> py_range n_actions. \<Sum>r \<leftarrow> py_range n_rewards. p (s', r, a, s)) * v s'))"
    unfolding A_gridworld_def by (simp only: left_diff_distrib sum_list_subtractf mult.assoc)
  also have "(\<Sum>s' \<leftarrow> py_range state_size. (if s = s' then 1 else 0) * v s') = v s"
    using assms by (simp add: sum_list_pick distinct_py_range)
  finally show ?thesis
    by (simp only: sum_list_const_mult sum_list_mult_const)
qed

lemma b_swapped:
  "b_gridworld p s =
     (\<Sum>a \<leftarrow> py_range n_actions. \<Sum>s' \<leftarrow> py_range state_size. \<Sum>r \<leftarrow> py_range n_rewards.
        p (s', r, a, s) * real_of_int (rewards ! nat r)) / 4"
  unfolding b_gridworld_def
  by (subst sum_list_swap[of _ "py_range n_rewards" "py_range state_size"]) (rule refl)

lemma bellman_rhs_split:
  "bellman_rhs p v s = b_gridworld p s
     + gamma / 4 * (\<Sum>a \<leftarrow> py_range n_actions. \<Sum>s' \<leftarrow> py_range state_size.
                      \<Sum>r \<leftarrow> py_range n_rewards. p (s', r, a, s) * v s')"
proof -
  have "bellman_rhs p v s =
      ((\<Sum>a \<leftarrow> py_range n_actions. \<Sum>s' \<leftarrow> py_range state_size. \<Sum>r \<leftarrow> py_range n_rewards.
          p (s', r, a, s) * real_of_int (rewards ! nat r))
       + (\<Sum>a \<leftarrow> py_range n_actions. \<Sum>s' \<leftarrow> py_range state_size. \<Sum>r \<leftarrow> py_range n_rewards.
          gamma * (p (s', r, a, s) * v s'))) / 4"
    unfolding bellman_rhs_def by (simp only: distrib_left sum_list_addf mult.left_commute[of _ gamma])
  then show ?thesis
    by (simp only: b_swapped sum_list_const_mult add_divide_distrib times_divide_eq_left)
qed

lemma bellman_of_solution:
  assumes "solves (A_gridworld p) (b_gridworld p) v" and s: "s \<in> set (py_range state_size)"
  shows "v s = bellman_rhs p v s"
proof -
  from assms have "(\<Sum>s' \<leftarrow> py_range state_size. A_gridworld p s s' * v s') = b_gridworld p s"
    by (simp add: solves_def list_all_iff)
  then have "v s - gamma / 4 * (\<Sum>s' \<leftarrow> py_range state_size. \<Sum>a \<leftarrow> py_range n_actions.
                           \<Sum>r \<leftarrow> py_range n_rewards. p (s', r, a, s) * v s') = b_gridworld p s"
    by (simp only: A_times_v[OF s])
  moreover have "(\<Sum>s' \<leftarrow> py_range state_size. \<Sum>a \<leftarrow> py_range n_actions.
                           \<Sum>r \<leftarrow> py_range n_rewards. p (s', r, a, s) * v s')
      = (\<Sum>a \<leftarrow> py_range n_actions. \<Sum>s' \<leftarrow> py_range state_size.
                           \<Sum>r \<leftarrow> py_range n_rewards. p (s', r, a, s) * v s')"
    by (rule sum_list_swap)
  ultimately show ?thesis unfolding bellman_rhs_split by simp
qed


lemma reward_of_index: "c \<in> set rewards \<Longrightarrow> rewards ! nat (r_ix c) = c"
  by (auto simp: rewards_def r_ix_def)

lemma closed_row:
  fixes f :: "int \<Rightarrow> int \<Rightarrow> real"
  assumes s: "0 \<le> s" "s < 25"
  shows "(\<Sum>a \<leftarrow> py_range n_actions. \<Sum>s' \<leftarrow> py_range state_size. \<Sum>r \<leftarrow> py_range n_rewards.
            p_closed (s', r, a, s) * f s' r)
       = (\<Sum>a \<leftarrow> py_range n_actions. f (fst (landing s a)) (r_ix (snd (landing s a))))"
proof -
  have "(\<Sum>s' \<leftarrow> py_range state_size. \<Sum>r \<leftarrow> py_range n_rewards. p_closed (s', r, a, s) * f s' r)
      = f (fst (landing s a)) (r_ix (snd (landing s a)))"
    if a: "a \<in> set (py_range n_actions)" for a
  proof -
    let ?d = "fst (landing s a)" and ?i = "r_ix (snd (landing s a))"
    from a have a': "0 \<le> a" "a < 4" by (simp_all add: set_py_range n_actions_def)
    have d: "?d \<in> set (py_range state_size)"
      using landing_range[OF s, of a] by (simp add: set_py_range state_size_def)
    have i: "?i \<in> set (py_range n_rewards)"
      using r_ix_range[of "snd (landing s a)"] by (simp add: set_py_range n_rewards_def)
    have "p_closed (s', r, a, s) * f s' r
        = (if ?d = s' then 1 else 0) * ((if ?i = r then 1 else 0) * f s' r)" for s' r
      using s a' by (auto simp: p_closed_def)
    then have "(\<Sum>s' \<leftarrow> py_range state_size. \<Sum>r \<leftarrow> py_range n_rewards. p_closed (s', r, a, s) * f s' r)
        = (\<Sum>s' \<leftarrow> py_range state_size. (if ?d = s' then 1 else 0) *
             (\<Sum>r \<leftarrow> py_range n_rewards. (if ?i = r then 1 else 0) * f s' r))"
      by (simp only: sum_list_const_mult)
    also have "\<dots> = (\<Sum>s' \<leftarrow> py_range state_size. (if ?d = s' then 1 else 0) * f s' ?i)"
      using i by (simp only: sum_list_pick[OF distinct_py_range] if_True)
    also have "\<dots> = f ?d ?i"
      using d by (simp only: sum_list_pick[OF distinct_py_range] if_True)
    finally show ?thesis .
  qed
  then show ?thesis by (simp cong: map_cong)
qed

lemma row_equation:
  assumes s: "s \<in> set (py_range state_size)"
  shows "(\<Sum>s' \<leftarrow> py_range state_size. A_gridworld p_closed s s' * v s') = b_gridworld p_closed s
     \<longleftrightarrow> v s - gamma / 4 * (\<Sum>a \<leftarrow> py_range n_actions. v (fst (landing s a)))
          = (\<Sum>a \<leftarrow> py_range n_actions. real_of_int (snd (landing s a))) / 4"
proof -
  from s have s': "0 \<le> s" "s < 25" by (simp_all add: set_py_range state_size_def)
  have 1: "(\<Sum>s' \<leftarrow> py_range state_size. \<Sum>a \<leftarrow> py_range n_actions.
                           \<Sum>r \<leftarrow> py_range n_rewards. p_closed (s', r, a, s) * v s')
      = (\<Sum>a \<leftarrow> py_range n_actions. v (fst (landing s a)))"
    by (subst sum_list_swap) (rule closed_row[OF s', of "\<lambda>s' r. v s'"])
  have 2: "b_gridworld p_closed s = (\<Sum>a \<leftarrow> py_range n_actions. real_of_int (snd (landing s a))) / 4"
    unfolding b_swapped closed_row[OF s', of "\<lambda>s' r. real_of_int (rewards ! nat r)"]
    by (simp add: reward_of_index snd_landing)
  show ?thesis unfolding A_times_v[OF s] 1 2 ..
qed

lemma py_range_25:
  "py_range state_size = [0, 1, 2, 3, 4, 5, 6, 7, 8, 9, 10, 11, 12, 13, 14, 15, 16, 17, 18, 19,
     20, 21, 22, 23, 24]"
  by (simp add: py_range_def state_size_def upt_rec)

lemma v_uniform_solves: "solves (A_gridworld p_closed) (b_gridworld p_closed) v_uniform"
proof -
  have "list_all (\<lambda>s. v_uniform s - gamma / 4 * (\<Sum>a \<leftarrow> py_range n_actions. v_uniform (fst (landing s a)))
          = (\<Sum>a \<leftarrow> py_range n_actions. real_of_int (snd (landing s a))) / 4) (py_range state_size)"
    unfolding py_range_25
    by (simp add: n_actions_def py_range_4 landing_def v_uniform_def gamma_def)
  then show ?thesis
    by (simp add: solves_def list_all_iff row_equation)
qed

section \<open>Gridworld: the claims\<close>

text \<open>
  C1, as stated: from every one of the 25 states, the special cells included, an action whose
  move leaves the grid keeps the state and has probability 1 on reward -1. The code at
  state 1 (cell A, top row) and action up: the move leaves the grid, yet the entry for
  staying in 1 with reward -1 (reward index 3) is 0, and the entry for landing in 21
  with reward +10 (reward index 2) is 1, since the test for a special state comes first.
\<close>

theorem C1_special_cell_boundary_move_counterexample:
  "1 \<in> set (py_range state_size) \<and> lookup actions_ix_map ''up'' = Inr 0
   \<and> move 1 ''up'' = Inr (- 1, 1) \<and> is_out_of_bounds (- 1, 1) (- 1, 1) 0 4
   \<and> rewards ! nat 3 = - 1 \<and> rewards ! nat 2 = 10
   \<and> p_at p_gridworld (1, 3, 0, 1) = Inr 0
   \<and> p_at p_gridworld (21, 2, 0, 1) = Inr 1"
  by (simp add: set_py_range state_size_def lookup_action_conv actions_def a_ix_def move_eq
      is_out_of_bounds_def rewards_def p_at_def p_gridworld_closed p_closed_def landing_def r_ix_def)

text \<open>
  C1, amended: for every state \<open>s\<close> and every action whose move from \<open>s\<close> leaves the grid:
  if \<open>s\<close> is not a special state, the tensor has probability 1 on next state \<open>s\<close> with
  reward -1 and 0 on every other pair of next state and reward; if \<open>s\<close> is a special state
  (1 or 3), it has probability 1 on the landing state of \<open>s\<close> with the special reward of \<open>s\<close>
  (21 with +10, 13 with +5) and 0 on every other pair.
\<close>

theorem C1_boundary_move_by_kind_of_cell:
  assumes "s \<in> set (py_range state_size)"
    and "lookup actions_ix_map action = Inr a"
    and "move s action = Inr new_pos" and "is_out_of_bounds new_pos new_pos 0 4"
    and "s' \<in> set (py_range state_size)" and "r \<in> set (py_range n_rewards)"
  shows "p_at p_gridworld (s', r, a, s) =
     Inr (if s \<in> set special_states
          then (if lookup special_state_map s = Inr s' \<and> lookup special_map s = Inr (rewards ! nat r)
                then 1 else 0)
          else (if s' = s \<and> rewards ! nat r = - 1 then 1 else 0))"
proof -
  from assms(1) have s: "0 \<le> s" "s < 25" by (simp_all add: set_py_range state_size_def)
  from assms(6) have r: "0 \<le> r" "r < 4" by (simp_all add: set_py_range n_rewards_def)
  from assms(2) have a: "action \<in> set actions" "a = a_ix action"
    by (simp_all add: lookup_action_conv)
  have ra: "rewards ! nat r = c \<longleftrightarrow> r = r_ix c" if "c \<in> set rewards" for c
    using reward_at[OF r, of c] that by simp
  show ?thesis
  proof (cases "s \<in> set special_states")
    case True
    then have "s = 1 \<or> s = 3" by (simp add: special_states_def)
    then show ?thesis
    proof
      assume s1: "s = 1"
      have "rewards ! nat r = 10 \<longleftrightarrow> r = r_ix 10" by (rule ra) (simp add: rewards_def)
      then show ?thesis
        using a_ix_range[of action]
        by (auto simp: s1 a(2) p_at_def p_gridworld_closed p_closed_def landing_def
            special_states_def special_lookups)
    next
      assume s3: "s = 3"
      have "rewards ! nat r = 5 \<longleftrightarrow> r = r_ix 5" by (rule ra) (simp add: rewards_def)
      then show ?thesis
        using a_ix_range[of action]
        by (auto simp: s3 a(2) p_at_def p_gridworld_closed p_closed_def landing_def
            special_states_def special_lookups)
    qed
  next
    case False
    have l: "landing s (a_ix action) = (s, - 1)"
      using s False a(1) assms(3,4) by (rule landing_out_of_bounds)
    have "rewards ! nat r = - 1 \<longleftrightarrow> r = r_ix (- 1)" by (rule ra) (simp add: rewards_def)
    then show ?thesis
      using s a_ix_range[of action] False
      by (simp add: p_at_def p_gridworld_closed p_closed_def l a(2))
  qed
qed

theorem C1_boundary_move_by_kind_of_cell_witness:
  "0 \<in> set (py_range state_size) \<and> 0 \<notin> set special_states
   \<and> 3 \<in> set (py_range state_size) \<and> 3 \<in> set special_states
   \<and> 13 \<in> set (py_range state_size)
   \<and> lookup actions_ix_map ''up'' = Inr 0
   \<and> move 0 ''up'' = Inr (- 1, 0) \<and> is_out_of_bounds (- 1, 0) (- 1, 0) 0 4
   \<and> move 3 ''up'' = Inr (- 1, 3) \<and> is_out_of_bounds (- 1, 3) (- 1, 3) 0 4
   \<and> 3 \<in> set (py_range n_rewards) \<and> 1 \<in> set (py_range n_rewards)
   \<and> p_at p_gridworld (0, 3, 0, 0) = Inr 1
   \<and> p_at p_gridworld (13, 1, 0, 3) = Inr 1
   \<and> p_at p_gridworld (3, 3, 0, 3) = Inr 0"
proof -
  have h: "0 \<in> set (py_range state_size)" "0 \<notin> set special_states"
    "3 \<in> set (py_range state_size)" "3 \<in> set special_states"
    "13 \<in> set (py_range state_size)"
    "lookup actions_ix_map ''up'' = Inr 0"
    "move 0 ''up'' = Inr (- 1, 0)" "is_out_of_bounds (- 1, 0) (- 1, 0) 0 4"
    "move 3 ''up'' = Inr (- 1, 3)" "is_out_of_bounds (- 1, 3) (- 1, 3) 0 4"
    "3 \<in> set (py_range n_rewards)" "1 \<in> set (py_range n_rewards)"
    by (simp_all add: set_py_range state_size_def n_rewards_def special_states_def
        lookup_action_conv actions_def a_ix_def move_eq is_out_of_bounds_def)
  from C1_boundary_move_by_kind_of_cell[OF h(1) h(6) h(7) h(8) h(1) h(11)]
  have w1: "p_at p_gridworld (0, 3, 0, 0) = Inr 1"
    by (simp add: rewards_def special_states_def)
  from C1_boundary_move_by_kind_of_cell[OF h(3) h(6) h(9) h(10) h(5) h(12)]
  have w2: "p_at p_gridworld (13, 1, 0, 3) = Inr 1"
    by (simp add: rewards_def special_states_def special_lookups)
  from C1_boundary_move_by_kind_of_cell[OF h(3) h(6) h(9) h(10) h(3) h(11)]
  have w3: "p_at p_gridworld (3, 3, 0, 3) = Inr 0"
    by (simp add: rewards_def special_states_def special_lookups)
  from h w1 w2 w3 show ?thesis by simp
qed

text \<open>
  C6. For state A (index 1) and each of the four actions, the tensor has probability 1 on
  next state 21 with reward +10 and 0 on every other pair of next state and reward.
\<close>

theorem C6_special_cell_A_transition:
  assumes "a \<in> set (py_range n_actions)" "s' \<in> set (py_range state_size)" "r \<in> set (py_range n_rewards)"
  shows "p_at p_gridworld (s', r, a, 1) = Inr (if s' = 21 \<and> rewards ! nat r = 10 then 1 else 0)"
proof -
  from assms(1) have a: "0 \<le> a" "a < 4" by (simp_all add: set_py_range n_actions_def)
  from assms(3) have r: "0 \<le> r" "r < 4" by (simp_all add: set_py_range n_rewards_def)
  have "rewards ! nat r = 10 \<longleftrightarrow> r = r_ix 10"
    using reward_at[OF r, of 10] by (simp add: rewards_def)
  then show ?thesis
    using a by (simp add: p_at_def p_gridworld_closed p_closed_def landing_def)
qed

theorem C6_special_cell_A_transition_witness:
  "2 \<in> set (py_range n_actions) \<and> 21 \<in> set (py_range state_size) \<and> 6 \<in> set (py_range state_size)
   \<and> 2 \<in> set (py_range n_rewards) \<and> rewards ! nat 2 = 10
   \<and> p_at p_gridworld (21, 2, 2, 1) = Inr 1 \<and> p_at p_gridworld (6, 2, 2, 1) = Inr 0"
proof -
  have h: "2 \<in> set (py_range n_actions)" "21 \<in> set (py_range state_size)"
    "6 \<in> set (py_range state_size)" "2 \<in> set (py_range n_rewards)" "rewards ! nat 2 = 10"
    by (simp_all add: set_py_range n_actions_def state_size_def n_rewards_def rewards_def)
  from C6_special_cell_A_transition[OF h(1,2,4)] C6_special_cell_A_transition[OF h(1,3,4)] h(5)
  have "p_at p_gridworld (21, 2, 2, 1) = Inr 1 \<and> p_at p_gridworld (6, 2, 2, 1) = Inr 0"
    by simp
  with h show ?thesis by simp
qed

text \<open>
  C10. The loops run through without raising, and for every action \<open>a\<close> and state \<open>s\<close> the
  tensor they build has one pair of next state and reward with entry 1 and entry 0 at every
  other pair; the slice sums to 1, and dividing by the slice sum changes no entry of it.
\<close>

theorem C10_slices_are_point_distributions:
  assumes "a \<in> set (py_range n_actions)" "s \<in> set (py_range state_size)"
  shows "\<exists>p. p_gridworld_loop = Inr p
     \<and> (\<exists>s0 \<in> set (py_range state_size). \<exists>r0 \<in> set (py_range n_rewards).
          \<forall>s' \<in> set (py_range state_size). \<forall>r \<in> set (py_range n_rewards).
            p (s', r, a, s) = (if s' = s0 \<and> r = r0 then 1 else 0))
     \<and> slice_sum p a s = 1
     \<and> (\<forall>s' \<in> set (py_range state_size). \<forall>r \<in> set (py_range n_rewards).
            normalise p (s', r, a, s) = p (s', r, a, s))"
proof -
  from assms have a: "0 \<le> a" "a < 4" and s: "0 \<le> s" "s < 25"
    by (simp_all add: set_py_range n_actions_def state_size_def)
  have one: "\<exists>s0 \<in> set (py_range state_size). \<exists>r0 \<in> set (py_range n_rewards).
          \<forall>s' \<in> set (py_range state_size). \<forall>r \<in> set (py_range n_rewards).
            p_closed (s', r, a, s) = (if s' = s0 \<and> r = r0 then 1 else 0)"
  proof (intro bexI ballI)
    show "fst (landing s a) \<in> set (py_range state_size)"
      using landing_range[OF s, of a] by (simp add: set_py_range state_size_def)
    show "r_ix (snd (landing s a)) \<in> set (py_range n_rewards)"
      using r_ix_range[of "snd (landing s a)"] by (simp add: set_py_range n_rewards_def)
    show "p_closed (s', r, a, s) = (if s' = fst (landing s a) \<and> r = r_ix (snd (landing s a)) then 1 else 0)" for s' r
      using a s by (simp add: p_closed_def)
  qed
  have "slice_sum p_closed a s = 1" using s a by (rule slice_sum_closed)
  moreover have "normalise p_closed (s', r, a, s) = p_closed (s', r, a, s)" for s' r
    by (simp add: normalise_closed)
  ultimately show ?thesis using one p_gridworld_loop_closed by blast
qed

theorem C10_slices_are_point_distributions_witness:
  "2 \<in> set (py_range n_actions) \<and> 7 \<in> set (py_range state_size)
   \<and> p_gridworld_loop = Inr p_closed
   \<and> p_closed (12, 0, 2, 7) = 1 \<and> p_closed (12, 3, 2, 7) = 0 \<and> p_closed (7, 0, 2, 7) = 0
   \<and> slice_sum p_closed 2 7 = 1
   \<and> normalise p_closed (12, 0, 2, 7) = p_closed (12, 0, 2, 7)"
proof -
  have h: "2 \<in> set (py_range n_actions)" "7 \<in> set (py_range state_size)"
    by (simp_all add: set_py_range n_actions_def state_size_def)
  from C10_slices_are_point_distributions[OF h] obtain p where
    p: "p_gridworld_loop = Inr p" "slice_sum p 2 7 = 1"
       "\<forall>s' \<in> set (py_range state_size). \<forall>r \<in> set (py_range n_rewards).
            normalise p (s', r, 2, 7) = p (s', r, 2, 7)"
    by blast
  from p(1) have pc: "p = p_closed" by (simp add: p_gridworld_loop_closed)
  have "12 \<in> set (py_range state_size)" "0 \<in> set (py_range n_rewards)"
    by (simp_all add: set_py_range n_rewards_def state_size_def)
  with p(3) have "normalise p (12, 0, 2, 7) = p (12, 0, 2, 7)" by blast
  moreover have "p_closed (12, 0, 2, 7) = 1 \<and> p_closed (12, 3, 2, 7) = 0 \<and> p_closed (7, 0, 2, 7) = 0"
    by (simp add: p_closed_def landing_def r_ix_def)
  ultimately show ?thesis using h p(1,2) pc by simp
qed

text \<open>
  C3. For the tensor \<open>p\<close> that the notebook builds, every vector \<open>v\<close> that solves the linear
  system \<open>A v = b\<close> (with \<open>A\<close> and \<open>b\<close> computed from \<open>p\<close> as the notebook does) satisfies at
  every state \<open>s\<close> the Bellman equation of the uniform policy,
  \<open>v(s) = 1/4 \<Sum> p(s', r | s, a) (r + \<gamma> v(s'))\<close> with \<open>\<gamma> = 0.9\<close>.
\<close>

theorem C3_solution_satisfies_bellman:
  assumes "p_gridworld = Inr p"
    and "solves (A_gridworld p) (b_gridworld p) v"
    and "s \<in> set (py_range state_size)"
  shows "v s = bellman_rhs p v s"
  using assms(2,3) by (rule bellman_of_solution)

theorem C3_solution_satisfies_bellman_witness:
  "p_gridworld = Inr p_closed
   \<and> solves (A_gridworld p_closed) (b_gridworld p_closed) v_uniform
   \<and> 6 \<in> set (py_range state_size)
   \<and> v_uniform 6 = bellman_rhs p_closed v_uniform 6"
proof -
  have s: "6 \<in> set (py_range state_size)" by (simp add: set_py_range state_size_def)
  from C3_solution_satisfies_bellman[OF p_gridworld_closed v_uniform_solves s]
  show ?thesis using p_gridworld_closed v_uniform_solves s by simp
qed

end
